theory Spec2Isabelle
  imports Main
begin

section \<open>Driver: the transaction queue and its drain task\<close>

text \<open>
  The classes of \<^verbatim>\<open>cocotb_bus/drivers/__init__.py\<close> run under a cooperative scheduler:
  code runs without interleaving from one \<^verbatim>\<open>await\<close> to the next. The model is a state
  record for one \<^verbatim>\<open>Driver\<close> instance and one function per method; the coroutine
  \<^verbatim>\<open>_send_thread\<close> is cut at its two suspension points, and a schedule is a list of
  calls made on the instance by the testbench and by the scheduler.

  Callbacks and completion events are opaque handles. A transaction is a value of any
  type \<open>'t\<close>. The keyword arguments of \<^verbatim>\<open>append\<close> are carried along unread.
\<close>

datatype callback = Callback nat
datatype event = Event nat
type_synonym kwargs = "(string \<times> string) list"

text \<open>An element of \<^verbatim>\<open>_sendQ\<close>: the tuple \<^verbatim>\<open>(transaction, callback, event, kwargs)\<close>.\<close>

type_synonym 't entry = "'t \<times> callback option \<times> event option \<times> kwargs"

text \<open>
  What the instance does to the outside, in order: a call of the concrete
  \<^verbatim>\<open>_driver_send(transaction, sync=..., **kwargs)\<close>, \<^verbatim>\<open>event.set()\<close>,
  \<^verbatim>\<open>callback(transaction)\<close>, and a line written to \<^verbatim>\<open>self.log\<close>.
\<close>

datatype errno = EAGAIN | EWOULDBLOCK | Errno nat

datatype level = DEBUG | INFO | ERROR

datatype message =
    SendingQueuedPacket
  | ListeningForData
  | RemoteEndClosed
  | ReprOfError errno

datatype 't effect =
    DriverSend 't bool kwargs
  | EventSet event
  | CallbackCalled callback 't
  | Log level message

text \<open>
  The coroutine \<^verbatim>\<open>_send_thread\<close>: created by \<^verbatim>\<open>start_soon\<close> and not yet run, suspended
  in \<^verbatim>\<open>await self._pending.wait()\<close>, suspended in \<^verbatim>\<open>await self._send(...)\<close> on the entry
  it popped, or ended by an exception of the concrete send.
\<close>

datatype 't task =
    Scheduled
  | AwaitPending
  | AwaitSend "'t entry"
  | Failed

record 't driver =
  sendQ :: "'t entry list"
  pending :: bool
  busy :: bool
  busy_event :: bool
  thread :: "'t task option"
  callers :: "('t \<times> bool \<times> kwargs) list"
  trace :: "'t effect list"

text \<open>
  \<^verbatim>\<open>__init__\<close>: both events unset, an empty deque, \<^verbatim>\<open>busy = False\<close>, the drain task
  scheduled. The field \<open>callers\<close> holds the direct \<^verbatim>\<open>send\<close> calls whose concrete send has
  not returned yet; \<open>trace\<close> is the record of effects.
\<close>

definition init :: "'t driver" where
  "init = \<lparr> sendQ = [], pending = False, busy = False, busy_event = False,
            thread = Some Scheduled, callers = [], trace = [] \<rparr>"

subsection \<open>The lock helpers\<close>



definition release_lock :: "'t driver \<Rightarrow> 't driver" where
  "release_lock s = s\<lparr>busy := False, busy_event := True\<rparr>"

subsection \<open>The methods called by the testbench\<close>

text \<open>
  \<^verbatim>\<open>if self._thread\<close> tests the handle: \<^verbatim>\<open>None\<close> is false, and a task that has not
  ended is true. What a task that has ended tests as is the choice of the scheduler's
  task type; it is the parameter \<open>done_false\<close>, \<open>True\<close> when such a task tests false.
\<close>

definition handle_true :: "bool \<Rightarrow> 't task option \<Rightarrow> bool" where
  "handle_true done_false h =
     (case h of
        None \<Rightarrow> False
      | Some Failed \<Rightarrow> \<not> done_false
      | Some _ \<Rightarrow> True)"

definition kill :: "bool \<Rightarrow> 't driver \<Rightarrow> 't driver" where
  "kill done_false s =
     (if handle_true done_false (thread s) then s\<lparr>thread := None\<rparr> else s)"

definition append :: "'t \<Rightarrow> callback option \<Rightarrow> event option \<Rightarrow> kwargs \<Rightarrow> 't driver \<Rightarrow> 't driver" where
  "append transaction cb ev kw s =
     s\<lparr>sendQ := sendQ s @ [(transaction, cb, ev, kw)], pending := True\<rparr>"

definition clear :: "'t driver \<Rightarrow> 't driver" where
  "clear s = s\<lparr>sendQ := []\<rparr>"

text \<open>
  \<^verbatim>\<open>_send\<close> is a call of \<^verbatim>\<open>_driver_send\<close>, an await, and the notifications. \<open>notify\<close>
  is the part after the await.
\<close>

definition notify :: "'t entry \<Rightarrow> 't driver \<Rightarrow> 't driver" where
  "notify e s =
     (case e of (transaction, cb, ev, kw) \<Rightarrow>
        let s1 = (case ev of None \<Rightarrow> s | Some v \<Rightarrow> s\<lparr>trace := trace s @ [EventSet v]\<rparr>)
        in (case cb of None \<Rightarrow> s1
            | Some c \<Rightarrow> s1\<lparr>trace := trace s1 @ [CallbackCalled c transaction]\<rparr>))"

text \<open>
  \<^verbatim>\<open>send(transaction, sync, **kwargs)\<close> runs \<^verbatim>\<open>_send(transaction, None, None, sync=sync)\<close>
  in the caller's coroutine: the concrete send is called at once, and the caller stays
  in \<open>callers\<close> until it returns. With no callback and no event there is nothing to
  notify on return.
\<close>

definition send :: "'t \<Rightarrow> bool \<Rightarrow> kwargs \<Rightarrow> 't driver \<Rightarrow> 't driver" where
  "send transaction sync kw s =
     s\<lparr>trace := trace s @ [DriverSend transaction sync kw],
       callers := callers s @ [(transaction, sync, kw)]\<rparr>"

definition send_returns :: "nat \<Rightarrow> 't driver \<Rightarrow> 't driver" where
  "send_returns i s =
     (if i < length (callers s)
      then (case callers s ! i of (transaction, sync, kw) \<Rightarrow>
              notify (transaction, None, None, kw)
                (s\<lparr>callers := take i (callers s) @ drop (Suc i) (callers s)\<rparr>))
      else s)"

subsection \<open>The drain task\<close>

text \<open>
  One pass of the body of \<^verbatim>\<open>while self._sendQ\<close> up to its await: \<^verbatim>\<open>popleft\<close>, the debug
  line, and the call \<^verbatim>\<open>_send(..., sync=not synchronised, **kwargs)\<close>, which calls the
  concrete send before it suspends.
\<close>

definition start_send :: "'t entry \<Rightarrow> 't entry list \<Rightarrow> bool \<Rightarrow> 't driver \<Rightarrow> 't driver" where
  "start_send e q synchronised s =
     (case e of (transaction, cb, ev, kw) \<Rightarrow>
        s\<lparr>sendQ := q,
          trace := trace s @ [Log DEBUG SendingQueuedPacket,
                              DriverSend transaction (\<not> synchronised) kw],
          thread := Some (AwaitSend e)\<rparr>)"

text \<open>
  From the head of \<^verbatim>\<open>while True\<close>: with an empty queue, clear \<^verbatim>\<open>_pending\<close> and wait on
  it; otherwise \<^verbatim>\<open>synchronised = False\<close> and the first send of the batch.
\<close>

definition send_thread_top :: "'t driver \<Rightarrow> 't driver" where
  "send_thread_top s =
     (case sendQ s of
        [] \<Rightarrow> s\<lparr>pending := False, thread := Some AwaitPending\<rparr>
      | e # q \<Rightarrow> start_send e q False s)"

text \<open>
  After \<^verbatim>\<open>await self._send(...)\<close> has returned: \<^verbatim>\<open>synchronised = True\<close>, and the test of
  \<^verbatim>\<open>while self._sendQ\<close>; an empty queue leaves the inner loop for the head of the outer.
\<close>

definition send_thread_next :: "'t driver \<Rightarrow> 't driver" where
  "send_thread_next s =
     (case sendQ s of
        e # q \<Rightarrow> start_send e q True s
      | [] \<Rightarrow> send_thread_top s)"

text \<open>
  The scheduler resumes the drain task. A task waiting on \<^verbatim>\<open>_pending\<close> runs only once
  the event is set; a task waiting on its send runs when the concrete send returns. A
  killed or failed task never runs again.
\<close>

definition resume :: "'t driver \<Rightarrow> 't driver" where
  "resume s =
     (case thread s of
        None \<Rightarrow> s
      | Some Scheduled \<Rightarrow> send_thread_top s
      | Some AwaitPending \<Rightarrow> (if pending s then send_thread_top s else s)
      | Some (AwaitSend e) \<Rightarrow> send_thread_next (notify e s)
      | Some Failed \<Rightarrow> s)"

text \<open>The concrete send of the drain task raises: the exception leaves \<^verbatim>\<open>_send_thread\<close>.\<close>

definition send_raises :: "'t driver \<Rightarrow> 't driver" where
  "send_raises s =
     (case thread s of
        Some (AwaitSend e) \<Rightarrow> s\<lparr>thread := Some Failed\<rparr>
      | _ \<Rightarrow> s)"

subsection \<open>Schedules\<close>

datatype 't call =
    Append 't "callback option" "event option" kwargs
  | Clear
  | Kill
  | Send 't bool kwargs
  | SendReturns nat
  | Resume
  | SendRaises

fun step :: "bool \<Rightarrow> 't call \<Rightarrow> 't driver \<Rightarrow> 't driver" where
  "step done_false (Append transaction cb ev kw) s = append transaction cb ev kw s"
| "step done_false Clear s = clear s"
| "step done_false Kill s = kill done_false s"
| "step done_false (Send transaction sync kw) s = send transaction sync kw s"
| "step done_false (SendReturns i) s = send_returns i s"
| "step done_false Resume s = resume s"
| "step done_false SendRaises s = send_raises s"

fun run :: "bool \<Rightarrow> 't call list \<Rightarrow> 't driver \<Rightarrow> 't driver" where
  "run done_false [] s = s"
| "run done_false (c # cs) s = run done_false cs (step done_false c s)"

section \<open>ValidatedBusDriver: the valid generator\<close>

text \<open>
  The attributes \<^verbatim>\<open>on\<close> and \<^verbatim>\<open>off\<close> hold \<^verbatim>\<open>None\<close> (constructor), a boolean, or a
  count pulled from the generator. \<^verbatim>\<open>not self.on\<close> is Python truthiness.
\<close>

datatype pyval = PNone | PBool bool | PInt int

fun truthy :: "pyval \<Rightarrow> bool" where
  "truthy PNone = False"
| "truthy (PBool b) = b"
| "truthy (PInt n) = (n \<noteq> 0)"

text \<open>
  A generator of \<^verbatim>\<open>(on, off)\<close> tuples is what it will still yield, finitely or
  infinitely many pairs: \<^verbatim>\<open>next\<close> returns the first pair and the rest, or raises
  \<^verbatim>\<open>StopIteration\<close> (\<open>None\<close>), and then raises it again on every later call.
\<close>

codatatype generator = Generator (gen_next: "((int \<times> int) \<times> generator) option")

primrec gen_of_list :: "(int \<times> int) list \<Rightarrow> generator" where
  "gen_of_list [] = Generator None"
| "gen_of_list (p # ps) = Generator (Some (p, gen_of_list ps))"

datatype valid_message =
    GeneratorExhausted
  | WillBeOn pyval pyval
  | NotUsingGenerator

record validated =
  on :: pyval
  off :: pyval
  valid_generator :: "generator option"
  vlog :: "valid_message list"

text \<open>
  The loop \<^verbatim>\<open>while not self.on\<close> of \<^verbatim>\<open>_next_valids\<close> on the generator \<open>g\<close>, with what
  follows it: leaving the loop by its test writes the debug line; the handler of
  \<^verbatim>\<open>StopIteration\<close> sets \<^verbatim>\<open>on\<close>, writes the info line and returns. The loop need not
  end, so the result is an option and \<open>None\<close> is a call that never returns.
\<close>

partial_function (option) next_valids_loop :: "generator \<Rightarrow> validated \<Rightarrow> validated option" where
  "next_valids_loop g s =
     (if truthy (on s) then Some (s\<lparr>vlog := vlog s @ [WillBeOn (on s) (off s)]\<rparr>)
      else (case gen_next g of
              None \<Rightarrow> Some (s\<lparr>on := PBool True, vlog := vlog s @ [GeneratorExhausted]\<rparr>)
            | Some (p, g') \<Rightarrow>
                next_valids_loop g'
                  (s\<lparr>on := PInt (fst p), off := PInt (snd p), valid_generator := Some g'\<rparr>)))"

declare next_valids_loop.simps [code]

definition next_valids :: "validated \<Rightarrow> validated option" where
  "next_valids s =
     (let s0 = s\<lparr>on := PBool False\<rparr>
      in (case valid_generator s0 of
            Some g \<Rightarrow> next_valids_loop g s0
          | None \<Rightarrow> Some (s0\<lparr>on := PBool True, off := PBool False,
                              vlog := vlog s0 @ [NotUsingGenerator]\<rparr>)))"

definition set_valid_generator :: "generator option \<Rightarrow> validated \<Rightarrow> validated option" where
  "set_valid_generator g s = next_valids (s\<lparr>valid_generator := g\<rparr>)"

text \<open>\<open>n\<close> calls of \<^verbatim>\<open>_next_valids\<close> in a row.\<close>

fun next_valids_times :: "nat \<Rightarrow> validated \<Rightarrow> validated option" where
  "next_valids_times 0 s = Some s"
| "next_valids_times (Suc n) s =
     (case next_valids s of None \<Rightarrow> None | Some s' \<Rightarrow> next_valids_times n s')"

section \<open>BitDriver\<close>

datatype error = NoGeneratorProvided | SocketError errno

text \<open>
  The task held in \<^verbatim>\<open>_cr\<close>: the coroutine object \<^verbatim>\<open>_cr_twiddler(generator=g)\<close> handed to
  the scheduler and not yet run, the coroutine in its loop, or the coroutine ended by an
  exception, which the task keeps.
\<close>

datatype twiddler = Forked "generator option" | Twiddling | Crashed error

record bit_driver =
  generator :: "generator option"
  cr :: "twiddler option"




section \<open>The socket attachment\<close>

text \<open>What \<^verbatim>\<open>sock.recv(4096)\<close> does at one clock edge: bytes, or a \<^verbatim>\<open>socket.error\<close>
  whose \<^verbatim>\<open>args[0]\<close> is the error number.\<close>

datatype recv = Received string | RecvError errno

datatype 'a loop = Continue 'a | Break 'a | Raised error 'a

definition poll_iteration :: "recv \<Rightarrow> string driver \<Rightarrow> string driver loop" where
  "poll_iteration r s =
     (case r of
        RecvError e \<Rightarrow>
          (if e \<in> set [EAGAIN, EWOULDBLOCK] then Continue s
           else Raised (SocketError e) (s\<lparr>trace := trace s @ [Log ERROR (ReprOfError e)]\<rparr>))
      | Received data \<Rightarrow>
          (if \<not> length data > 0
           then Break (s\<lparr>trace := trace s @ [Log INFO RemoteEndClosed]\<rparr>)
           else Continue (append data None None [] s)))"

text \<open>The loop over the outcomes of \<^verbatim>\<open>recv\<close> at successive clock edges; when they run
  out the coroutine is still polling.\<close>

fun poll_loop :: "recv list \<Rightarrow> string driver \<Rightarrow> string driver loop" where
  "poll_loop [] s = Continue s"
| "poll_loop (r # rs) s =
     (case poll_iteration r s of
        Continue s' \<Rightarrow> poll_loop rs s'
      | Break s' \<Rightarrow> Break s'
      | Raised e s' \<Rightarrow> Raised e s')"

definition polled_socket_attachment :: "recv list \<Rightarrow> string driver \<Rightarrow> string driver loop" where
  "polled_socket_attachment rs s =
     poll_loop rs (s\<lparr>trace := trace s @ [Log INFO ListeningForData]\<rparr>)"

section \<open>Reading a trace and a schedule\<close>

fun driver_sends :: "'t effect list \<Rightarrow> ('t \<times> bool) list" where
  "driver_sends [] = []"
| "driver_sends (DriverSend transaction sync kw # tr) = (transaction, sync) # driver_sends tr"
| "driver_sends (_ # tr) = driver_sends tr"

fun appended :: "'t call list \<Rightarrow> 't entry list" where
  "appended [] = []"
| "appended (Append transaction cb ev kw # cs) = (transaction, cb, ev, kw) # appended cs"
| "appended (_ # cs) = appended cs"


text \<open>The handles a notification can reach.\<close>

datatype handle = OfCallback callback | OfEvent event

fun entry_handles :: "'t entry \<Rightarrow> handle list" where
  "entry_handles (transaction, cb, ev, kw) =
     (case cb of None \<Rightarrow> [] | Some c \<Rightarrow> [OfCallback c]) @
     (case ev of None \<Rightarrow> [] | Some v \<Rightarrow> [OfEvent v])"

fun notified :: "'t effect list \<Rightarrow> handle list" where
  "notified [] = []"
| "notified (EventSet v # tr) = OfEvent v # notified tr"
| "notified (CallbackCalled c transaction # tr) = OfCallback c # notified tr"
| "notified (_ # tr) = notified tr"

text \<open>The entry whose send the drain task is waiting on, and the sends in flight.\<close>

definition in_send :: "'t driver \<Rightarrow> 't entry list" where
  "in_send s = (case thread s of Some (AwaitSend e) \<Rightarrow> [e] | _ \<Rightarrow> [])"


definition effects_since :: "'t driver \<Rightarrow> 't driver \<Rightarrow> 't effect list" where
  "effects_since s s' = drop (length (trace s)) (trace s')"



definition handles_of :: "'t entry list \<Rightarrow> handle list" where
  "handles_of es = concat (map entry_handles es)"

section \<open>Traces, schedules and the drain task\<close>

lemma driver_sends_append [simp]:
  "driver_sends (a @ b) = driver_sends a @ driver_sends b"
  by (induction a rule: driver_sends.induct) simp_all

lemma notified_append [simp]: "notified (a @ b) = notified a @ notified b"
  by (induction a rule: notified.induct) simp_all

lemma appended_append [simp]: "appended (a @ b) = appended a @ appended b"
  by (induction a rule: appended.induct) simp_all

lemma appended_replicate_Resume [simp]: "appended (replicate n Resume) = []"
  by (induction n) simp_all

lemma run_append [simp]: "run df (a @ b) s = run df b (run df a s)"
  by (induction a arbitrary: s) simp_all

lemma notify_fields [simp]:
  "sendQ (notify e s) = sendQ s" "thread (notify e s) = thread s"
  "pending (notify e s) = pending s" "busy (notify e s) = busy s"
  "busy_event (notify e s) = busy_event s" "callers (notify e s) = callers s"
  by (auto simp: notify_def Let_def split: prod.splits option.splits)

lemma notify_trace:
  "trace (notify e s) = trace s @
     (case snd (snd e) of (ev, kw) \<Rightarrow> (case ev of None \<Rightarrow> [] | Some v \<Rightarrow> [EventSet v])) @
     (case fst (snd e) of None \<Rightarrow> [] | Some c \<Rightarrow> [CallbackCalled c (fst e)])"
  by (auto simp: notify_def Let_def split: prod.splits option.splits)

lemma notify_sends [simp]: "driver_sends (trace (notify e s)) = driver_sends (trace s)"
  by (auto simp: notify_trace split: prod.splits option.splits)







section \<open>FIFO order of the queued sends\<close>







section \<open>One batch of the drain task\<close>





section \<open>Driver.clear\<close>

lemma trace_step: "\<exists>x. trace (step df c s) = trace s @ x"
  by (cases c)
     (auto simp: append_def clear_def kill_def handle_true_def send_def send_returns_def resume_def
        send_raises_def notify_trace send_thread_top_def send_thread_next_def start_send_def
        split: prod.splits option.splits task.splits list.splits)

lemma trace_run: "\<exists>x. trace (run df cs s) = trace s @ x"
proof (induction cs arbitrary: s)
  case Nil
  then show ?case by simp
next
  case (Cons c cs)
  obtain x where x: "trace (step df c s) = trace s @ x" using trace_step by blast
  obtain y where "trace (run df cs (step df c s)) = trace (step df c s) @ y" using Cons.IH by blast
  then show ?case using x by simp
qed

lemma effects_since_Cons:
  "effects_since s (run df (c # cs) s) =
     effects_since s (step df c s) @ effects_since (step df c s) (run df cs (step df c s))"
proof -
  obtain x where x: "trace (step df c s) = trace s @ x" using trace_step by blast
  obtain y where "trace (run df cs (step df c s)) = trace (step df c s) @ y" using trace_run by blast
  then show ?thesis using x by (simp add: effects_since_def)
qed

lemma handles_of_append [simp]: "handles_of (a @ b) = handles_of a @ handles_of b"
  by (simp add: handles_of_def)

lemma step_notifies_in_send:
  "set (notified (effects_since s (step df c s))) \<subseteq> set (handles_of (in_send s))"
proof (cases c)
  case Resume
  show ?thesis
  proof (cases "thread s")
    case None
    then show ?thesis using Resume by (simp add: resume_def effects_since_def)
  next
    case (Some t)
    then show ?thesis using Resume
      by (cases t)
         (auto simp: resume_def effects_since_def send_thread_top_def send_thread_next_def
            start_send_def notify_trace in_send_def handles_of_def
            split: list.splits prod.splits option.splits)
  qed
next
  case (SendReturns i)
  then show ?thesis
    by (auto simp: send_returns_def effects_since_def notify_trace split: prod.splits)
next
  case SendRaises
  then show ?thesis
    by (auto simp: send_raises_def effects_since_def split: option.splits task.splits)
qed (simp_all add: append_def clear_def kill_def handle_true_def send_def effects_since_def)

lemma step_owed:
  "set (handles_of (in_send (step df c s) @ sendQ (step df c s))) \<subseteq>
   set (handles_of (in_send s @ sendQ s @ appended [c]))"
proof (cases c)
  case Resume
  show ?thesis
  proof (cases "thread s")
    case None
    then show ?thesis using Resume by (simp add: resume_def)
  next
    case (Some t)
    then show ?thesis using Resume
      by (cases t)
         (auto simp: resume_def send_thread_top_def send_thread_next_def
            start_send_def in_send_def handles_of_def
            split: list.splits prod.splits option.splits)
  qed
next
  case (SendReturns i)
  then show ?thesis
    by (auto simp: send_returns_def in_send_def split: prod.splits)
next
  case SendRaises
  then show ?thesis
    by (auto simp: send_raises_def in_send_def handles_of_def split: option.splits task.splits)
qed (auto simp: append_def clear_def kill_def handle_true_def send_def in_send_def handles_of_def
       split: option.splits task.splits)

lemma run_notifies_owed:
  "set (notified (effects_since s (run df cs s))) \<subseteq>
   set (handles_of (in_send s @ sendQ s @ appended cs))"
proof (induction cs arbitrary: s)
  case Nil
  then show ?case by (simp add: effects_since_def)
next
  case (Cons c cs)
  have a: "appended (c # cs) = appended [c] @ appended cs"
    using appended_append [of "[c]" cs] by simp
  have "set (notified (effects_since (step df c s) (run df cs (step df c s)))) \<subseteq>
        set (handles_of (in_send (step df c s) @ sendQ (step df c s))) \<union> set (handles_of (appended cs))"
    using Cons.IH [of "step df c s"] by (simp add: Un_assoc)
  also have "\<dots> \<subseteq> set (handles_of (in_send s @ sendQ s @ appended [c])) \<union> set (handles_of (appended cs))"
    using step_owed [where c = c and s = s and df = df] by blast
  finally have "set (notified (effects_since (step df c s) (run df cs (step df c s)))) \<subseteq>
        set (handles_of (in_send s @ sendQ s @ appended (c # cs)))"
    using a by auto
  moreover have "set (notified (effects_since s (step df c s))) \<subseteq>
        set (handles_of (in_send s @ sendQ s @ appended (c # cs)))"
    using step_notifies_in_send [where c = c and s = s and df = df] by auto
  moreover have "set (notified (effects_since s (run df (c # cs) s))) =
        set (notified (effects_since s (step df c s))) \<union>
        set (notified (effects_since (step df c s) (run df cs (step df c s))))"
    by (simp only: effects_since_Cons notified_append set_append)
  ultimately show ?case by blast
qed

text \<open>
  C3. \<^verbatim>\<open>clear\<close> is called in a state \<open>s\<close>, and any schedule \<open>cs\<close> follows. A callback or
  completion event \<open>h\<close> of an entry that was in the queue at the clear is not invoked or
  set by anything that happens afterwards. The handle is taken to belong to that entry:
  the testbench has not given the same handle to the entry being sent at the time of
  the clear, nor to an entry it appends later.
\<close>

theorem clear_drops_pending:
  assumes "e \<in> set (sendQ s)" and "h \<in> set (entry_handles e)"
    and "h \<notin> set (handles_of (in_send s @ appended cs))"
  shows "h \<notin> set (notified (effects_since s (run df cs (clear s))))"
proof -
  have "effects_since s (run df cs (clear s)) = effects_since (clear s) (run df cs (clear s))"
    by (simp add: effects_since_def clear_def)
  moreover have "in_send (clear s) = in_send s" "sendQ (clear s) = []"
    by (simp_all add: in_send_def clear_def)
  ultimately have "set (notified (effects_since s (run df cs (clear s)))) \<subseteq>
        set (handles_of (in_send s @ appended cs))"
    using run_notifies_owed [where s = "clear s" and cs = cs and df = df] by simp
  then show ?thesis using assms(3) by blast
qed

theorem clear_drops_pending_witness:
  "OfCallback (Callback 7) \<notin> set (notified (effects_since
      (run True [Append (0::nat) (Some (Callback 6)) None [], Resume,
            Append 1 (Some (Callback 7)) (Some (Event 7)) []] init)
      (run True [Append 2 (Some (Callback 8)) None [], Resume, Resume, Resume]
        (clear (run True [Append (0::nat) (Some (Callback 6)) None [], Resume,
            Append 1 (Some (Callback 7)) (Some (Event 7)) []] init))))) \<and>
   OfEvent (Event 7) \<notin> set (notified (effects_since
      (run True [Append (0::nat) (Some (Callback 6)) None [], Resume,
            Append 1 (Some (Callback 7)) (Some (Event 7)) []] init)
      (run True [Append 2 (Some (Callback 8)) None [], Resume, Resume, Resume]
        (clear (run True [Append (0::nat) (Some (Callback 6)) None [], Resume,
            Append 1 (Some (Callback 7)) (Some (Event 7)) []] init)))))"
  using clear_drops_pending [where df = True
      and e = "(1, Some (Callback 7), Some (Event 7), [])"
      and s = "run True [Append (0::nat) (Some (Callback 6)) None [], Resume,
            Append 1 (Some (Callback 7)) (Some (Event 7)) []] init"
      and h = "OfCallback (Callback 7)"
      and cs = "[Append 2 (Some (Callback 8)) None [], Resume, Resume, Resume]"]
    clear_drops_pending [where df = True
      and e = "(1, Some (Callback 7), Some (Event 7), [])"
      and s = "run True [Append (0::nat) (Some (Callback 6)) None [], Resume,
            Append 1 (Some (Callback 7)) (Some (Event 7)) []] init"
      and h = "OfEvent (Event 7)"
      and cs = "[Append 2 (Some (Callback 8)) None [], Resume, Resume, Resume]"]
  by (simp add: init_def append_def resume_def send_thread_top_def start_send_def
      in_send_def handles_of_def)

section \<open>The busy flag\<close>





section \<open>ValidatedBusDriver._next_valids\<close>

lemma loop_exhausted:
  "\<not> truthy (on s) \<Longrightarrow> gen_next g = None \<Longrightarrow>
   next_valids_loop g s = Some (s\<lparr>on := PBool True, vlog := vlog s @ [GeneratorExhausted]\<rparr>)"
  by (subst next_valids_loop.simps) simp

lemma exhausted_call:
  "valid_generator s = Some g \<Longrightarrow> gen_next g = None \<Longrightarrow>
   next_valids s = Some (s\<lparr>on := PBool True, vlog := vlog s @ [GeneratorExhausted]\<rparr>)"
  by (simp add: next_valids_def loop_exhausted)

lemma loop_zero_on:
  "\<not> truthy (on s) \<Longrightarrow> \<forall>p \<in> set ps. fst p = 0 \<Longrightarrow>
   next_valids_loop (gen_of_list ps) s =
     Some (s\<lparr>on := PBool True,
             off := (if ps = [] then off s else PInt (snd (last ps))),
             valid_generator := (if ps = [] then valid_generator s else Some (gen_of_list [])),
             vlog := vlog s @ [GeneratorExhausted]\<rparr>)"
proof (induction ps arbitrary: s)
  case Nil
  then show ?case by (subst next_valids_loop.simps) simp
next
  case (Cons p ps)
  let ?s = "s\<lparr>on := PInt (fst p), off := PInt (snd p), valid_generator := Some (gen_of_list ps)\<rparr>"
  have "next_valids_loop (gen_of_list (p # ps)) s = next_valids_loop (gen_of_list ps) ?s"
    using Cons.prems(1) by (subst next_valids_loop.simps) simp
  moreover have "\<not> truthy (on ?s)" using Cons.prems(2) by simp
  moreover have "\<forall>p \<in> set ps. fst p = 0" using Cons.prems(2) by simp
  ultimately show ?case using Cons.IH [of ?s] by (cases ps) simp_all
qed

text \<open>
  C4. With a valid generator that yields \<open>(0, 3)\<close>, \<open>(0, 2)\<close>, \<open>(5, 1)\<close>, one call of
  \<^verbatim>\<open>_next_valids\<close> returns, has pulled all three pairs, and leaves \<^verbatim>\<open>on = 5\<close>,
  \<^verbatim>\<open>off = 1\<close>.
\<close>

theorem next_valids_skips_zero_on:
  "next_valids (s\<lparr>valid_generator := Some (gen_of_list [(0, 3), (0, 2), (5, 1)])\<rparr>) =
     Some (s\<lparr>on := PInt 5, off := PInt 1, valid_generator := Some (gen_of_list []),
             vlog := vlog s @ [WillBeOn (PInt 5) (PInt 1)]\<rparr>)"
  by (simp add: next_valids_def next_valids_loop.simps)

text \<open>
  C5. With a configured valid generator that is exhausted, every call of
  \<^verbatim>\<open>_next_valids\<close> returns and leaves \<^verbatim>\<open>on = True\<close>, however many calls came before
  it; the generator stays configured and exhausted.
\<close>

theorem next_valids_exhausted_on:
  assumes "valid_generator s = Some g" and "gen_next g = None"
  shows "\<exists>s'. next_valids_times (Suc n) s = Some s' \<and> on s' = PBool True
              \<and> off s' = off s \<and> valid_generator s' = Some g"
  using assms
proof (induction n arbitrary: s)
  case 0
  then show ?case by (simp add: exhausted_call)
next
  case (Suc n)
  let ?s = "s\<lparr>on := PBool True, vlog := vlog s @ [GeneratorExhausted]\<rparr>"
  have "next_valids s = Some ?s" using Suc.prems by (rule exhausted_call)
  moreover have "valid_generator ?s = Some g" using Suc.prems(1) by simp
  ultimately show ?case using Suc.IH [of ?s] Suc.prems(2) by simp
qed

theorem next_valids_exhausted_on_witness:
  "\<exists>s'. next_valids_times 3 \<lparr>on = PNone, off = PNone, valid_generator = Some (gen_of_list []), vlog = []\<rparr> = Some s'
        \<and> on s' = PBool True \<and> off s' = PNone \<and> valid_generator s' = Some (gen_of_list [])"
  using next_valids_exhausted_on [of "\<lparr>on = PNone, off = PNone, valid_generator = Some (gen_of_list []), vlog = []\<rparr>" "gen_of_list []" 2]
  by (simp add: numeral_3_eq_3)

text \<open>
  C9 as stated fails: a call that pulls \<open>(0, 3)\<close> and then finds the generator
  exhausted leaves \<^verbatim>\<open>off = 3\<close>, not the \<^verbatim>\<open>None\<close> it held before the call.
\<close>

theorem exhaustion_off_counterexample:
  "next_valids \<lparr>on = PNone, off = PNone, valid_generator = Some (gen_of_list [(0, 3)]),
                vlog = []\<rparr> =
     Some \<lparr>on = PBool True, off = PInt 3, valid_generator = Some (gen_of_list []),
           vlog = [GeneratorExhausted]\<rparr>
   \<and> PInt 3 \<noteq> off \<lparr>on = PNone, off = PNone,
                      valid_generator = Some (gen_of_list [(0, 3)]), vlog = []\<rparr>"
  by (simp add: next_valids_def next_valids_loop.simps)

text \<open>
  C9, as the code has it. A call of \<^verbatim>\<open>_next_valids\<close> ends in the handler of
  \<^verbatim>\<open>StopIteration\<close> when the generator yields only pairs with \<^verbatim>\<open>on = 0\<close> and then stops.
  The handler sets \<^verbatim>\<open>on = True\<close> and does not write \<^verbatim>\<open>off\<close>: \<^verbatim>\<open>off\<close> is the off count
  of the last pair pulled, also when that pair was skipped in this very call, and the
  value from before the call when the generator had nothing left to yield.
\<close>

theorem exhaustion_keeps_last_off:
  assumes "\<forall>p \<in> set ps. fst p = 0"
  shows "next_valids (s\<lparr>valid_generator := Some (gen_of_list ps)\<rparr>) =
           Some (s\<lparr>on := PBool True,
                   off := (if ps = [] then off s else PInt (snd (last ps))),
                   valid_generator := Some (gen_of_list []),
                   vlog := vlog s @ [GeneratorExhausted]\<rparr>)"
proof -
  let ?s0 = "s\<lparr>valid_generator := Some (gen_of_list ps), on := PBool False\<rparr>"
  have "\<not> truthy (on ?s0)" by simp
  from loop_zero_on [OF this assms] show ?thesis
    by (cases "ps = []") (simp_all add: next_valids_def)
qed

theorem exhaustion_keeps_last_off_witness:
  "next_valids \<lparr>on = PInt 4, off = PInt 9, valid_generator = Some (gen_of_list [(0, 3), (0, 7)]),
                vlog = []\<rparr> =
     Some \<lparr>on = PBool True, off = PInt 7, valid_generator = Some (gen_of_list []),
           vlog = [GeneratorExhausted]\<rparr>
   \<and> next_valids \<lparr>on = PInt 4, off = PInt 9, valid_generator = Some (gen_of_list []),
                vlog = []\<rparr> =
     Some \<lparr>on = PBool True, off = PInt 9, valid_generator = Some (gen_of_list []),
           vlog = [GeneratorExhausted]\<rparr>"
  using exhaustion_keeps_last_off [of "[(0, 3), (0, 7)]"
      "\<lparr>on = PInt 4, off = PInt 9, valid_generator = None, vlog = []\<rparr>"]
    exhaustion_keeps_last_off [of "[]"
      "\<lparr>on = PInt 4, off = PInt 9, valid_generator = None, vlog = []\<rparr>"]
  by simp

section \<open>BitDriver.start\<close>



section \<open>One pass of the socket poll loop\<close>

text \<open>
  C8. One pass of the poll loop, with whatever \<^verbatim>\<open>recv\<close> does at the later clock
  edges: on \<^verbatim>\<open>EAGAIN\<close> or \<^verbatim>\<open>EWOULDBLOCK\<close> the loop goes on with the driver as it was,
  nothing appended; on an empty read it ends without an error; on any other socket
  error it ends with that error; on data it appends the data as a transaction, with no
  callback and no event, and goes on.
\<close>

theorem poll_loop_iteration:
  "poll_loop (RecvError EAGAIN # rs) s = poll_loop rs s
   \<and> poll_loop (RecvError EWOULDBLOCK # rs) s = poll_loop rs s
   \<and> poll_loop (Received [] # rs) s =
       Break (s\<lparr>trace := trace s @ [Log INFO RemoteEndClosed]\<rparr>)
   \<and> poll_loop (RecvError (Errno n) # rs) s =
       Raised (SocketError (Errno n)) (s\<lparr>trace := trace s @ [Log ERROR (ReprOfError (Errno n))]\<rparr>)
   \<and> poll_loop (Received (b # bs) # rs) s = poll_loop rs (append (b # bs) None None [] s)"
  by (simp add: poll_iteration_def)

section \<open>Driver.kill\<close>

lemma stopped_step:
  "\<not> handle_true df (thread s) \<Longrightarrow> \<not> handle_true df (thread (step df c s))"
  by (cases c)
     (auto simp: append_def clear_def kill_def handle_true_def send_def send_returns_def
        resume_def send_raises_def notify_def Let_def
        split: prod.splits option.splits task.splits)

lemma stopped_run:
  "\<not> handle_true df (thread s) \<Longrightarrow> \<not> handle_true df (thread (run df cs s))"
  by (induction cs arbitrary: s) (simp_all add: stopped_step)

lemma stopped_kill: "\<not> handle_true df (thread (kill df s))"
  by (simp add: kill_def handle_true_def)

text \<open>
  C10. \<^verbatim>\<open>kill\<close> is idempotent: called on a drain task that has not ended, it ends the
  task and clears the handle \<^verbatim>\<open>_thread\<close>, and changes nothing else; after a first
  \<^verbatim>\<open>kill\<close>, whatever is called on the instance, every later \<^verbatim>\<open>kill\<close> returns the state
  it was given.
\<close>

theorem kill_idempotent:
  "(thread s \<noteq> None \<and> thread s \<noteq> Some Failed \<longrightarrow> kill df s = s\<lparr>thread := None\<rparr>)
   \<and> kill df (kill df s) = kill df s
   \<and> kill df (run df cs (kill df s)) = run df cs (kill df s)"
proof -
  have "\<not> handle_true df (thread (run df cs (kill df s)))"
    using stopped_kill by (rule stopped_run)
  then have "kill df (run df cs (kill df s)) = run df cs (kill df s)"
    by (simp add: kill_def)
  moreover have "kill df (kill df s) = kill df s"
    using stopped_kill [of df s] by (simp add: kill_def)
  moreover have "thread s \<noteq> None \<and> thread s \<noteq> Some Failed \<longrightarrow> kill df s = s\<lparr>thread := None\<rparr>"
    by (auto simp: kill_def handle_true_def split: option.splits task.splits)
  ultimately show ?thesis by simp
qed

theorem kill_idempotent_witness:
  "kill True (run True [Append (1::nat) None None [], Resume] init) =
     (run True [Append (1::nat) None None [], Resume] init)\<lparr>thread := None\<rparr>
   \<and> kill True (run True [Append 2 None None [], Resume, Kill]
        (kill True (run True [Append (1::nat) None None [], Resume] init))) =
      run True [Append 2 None None [], Resume, Kill]
        (kill True (run True [Append (1::nat) None None [], Resume] init))"
proof -
  let ?s = "run True [Append (1::nat) None None [], Resume] init"
  have "thread ?s \<noteq> None \<and> thread ?s \<noteq> Some Failed"
    by (simp add: init_def append_def resume_def send_thread_top_def start_send_def)
  with kill_idempotent [where s = ?s and df = True and cs = "[Append 2 None None [], Resume, Kill]"]
  show ?thesis by blast
qed

end
